theory Spec2Isabelle
  imports Complex_Main "HOL-Library.Multiset"
begin

section \<open>Tensors, indices and errors\<close>

text \<open>
  The notebook computes on float tensors. Entries are modelled as real numbers (rounding
  is not modelled), a tensor of shape \<open>[N, F]\<close> as the list of its \<open>N\<close> rows, an index
  tensor as a list of integers, and \<open>edge_index\<close> of shape \<open>[2, E]\<close> as the list of its
  \<open>E\<close> columns \<open>(edge_index[0][e], edge_index[1][e])\<close>. Every exception that a called
  tensor operation raises is a value \<open>Inl err\<close>. A non-finite entry (\<open>inf\<close>, \<open>nan\<close>),
  which the reals do not have, is reported as \<open>Inl NonFinite\<close> where a division by zero
  would produce it. What a float operation does beyond that (overflow, two nearby numbers
  rounded to one) has no counterpart here.
\<close>

datatype error =
    ShapeMismatch
  | IndexOutOfRange
  | NonFinite
  | EmptyReduction
  | ValueError
  | ZeroDivisionError

type_synonym vec = "real list"
type_synonym matrix = "real list list"
type_synonym edge_index = "(int \<times> int) list"

definition width :: "'a list list \<Rightarrow> nat" where
  "width m = (case m of [] \<Rightarrow> 0 | r # _ \<Rightarrow> length r)"

text \<open>Running a fallible operation over a list stops at the first error.\<close>

fun traverse :: "('a \<Rightarrow> error + 'b) \<Rightarrow> 'a list \<Rightarrow> error + 'b list" where
  "traverse f [] = Inr []"
| "traverse f (x # xs) =
     (case f x of
        Inl e \<Rightarrow> Inl e
      | Inr y \<Rightarrow> (case traverse f xs of Inl e \<Rightarrow> Inl e | Inr ys \<Rightarrow> Inr (y # ys)))"

text \<open>\<open>t[idx]\<close> with an index tensor: an index below zero counts from the end.\<close>

definition getitem :: "'a list \<Rightarrow> int \<Rightarrow> error + 'a" where
  "getitem t i =
     (if - int (length t) \<le> i \<and> i < int (length t)
      then Inr (t ! nat (if i < 0 then i + int (length t) else i))
      else Inl IndexOutOfRange)"

text \<open>\<open>t.index_select(0, idx)\<close>: every index must lie in \<open>[0, t.size(0))\<close>.\<close>

definition index_select :: "'a list \<Rightarrow> int \<Rightarrow> error + 'a" where
  "index_select t i =
     (if 0 \<le> i \<and> i < int (length t) then Inr (t ! nat i) else Inl IndexOutOfRange)"

text \<open>
  \<open>out.scatter_add_(0, index, src)\<close>: for every position \<open>e\<close>, in order,
  \<open>out[index[e]] += src[e]\<close>; an index outside \<open>[0, out.size(0))\<close> is an error.
  The addition is a parameter, so that the same loop serves vectors of numbers and
  matrices (rows added entrywise).
\<close>

fun scatter_add :: "('a \<Rightarrow> 'a \<Rightarrow> 'a) \<Rightarrow> 'a list \<Rightarrow> int list \<Rightarrow> 'a list \<Rightarrow> error + 'a list" where
  "scatter_add f out [] [] = Inr out"
| "scatter_add f out (i # idx) (s # src) =
     (if 0 \<le> i \<and> i < int (length out)
      then scatter_add f (out[nat i := f (out ! nat i) s]) idx src
      else Inl IndexOutOfRange)"
| "scatter_add f out [] (s # src) = Inl ShapeMismatch"
| "scatter_add f out (i # idx) [] = Inl ShapeMismatch"

definition vadd :: "vec \<Rightarrow> vec \<Rightarrow> vec" where
  "vadd u v = map2 (+) u v"

section \<open>Library operations of the graph layer\<close>

text \<open>
  \<open>add_self_loops(edge_index, num_nodes=N)\<close> concatenates the columns \<open>(i, i)\<close>,
  \<open>i = 0 .. N-1\<close>, after the given ones.
\<close>

definition add_self_loops :: "edge_index \<Rightarrow> nat \<Rightarrow> edge_index" where
  "add_self_loops edge_index num_nodes =
     edge_index @ map (\<lambda>i. (int i, int i)) [0..<num_nodes]"

text \<open>\<open>degree(index, N)\<close> scatter-adds a one for every entry of \<open>index\<close> into \<open>N\<close> zeros.\<close>

definition degree :: "int list \<Rightarrow> nat \<Rightarrow> error + vec" where
  "degree index num_nodes =
     scatter_add (+) (replicate num_nodes 0) index (replicate (length index) 1)"

text \<open>\<open>d.pow(-0.5)\<close> for one entry: finite exactly when \<open>d\<close> is positive.\<close>

definition pow_neg_half :: "real \<Rightarrow> error + real" where
  "pow_neg_half d = (if 0 < d then Inr (1 / sqrt d) else Inl NonFinite)"

subsection \<open>torch.nn.Linear\<close>

record linear =
  in_features :: nat
  out_features :: nat
  weight :: matrix
  bias :: "vec option"

text \<open>The shapes \<open>Linear(in, out, bias)\<close> creates: weight \<open>[out, in]\<close>, bias \<open>[out]\<close> or none.\<close>

definition wf_linear :: "linear \<Rightarrow> bool" where
  "wf_linear L \<longleftrightarrow>
     length (weight L) = out_features L \<and>
     list_all (\<lambda>w. length w = in_features L) (weight L) \<and>
     (case bias L of None \<Rightarrow> True | Some b \<Rightarrow> length b = out_features L)"

definition dot :: "vec \<Rightarrow> vec \<Rightarrow> real" where
  "dot u v = sum_list (map2 (*) u v)"

definition linear_row :: "linear \<Rightarrow> vec \<Rightarrow> vec" where
  "linear_row L r =
     (case bias L of
        None \<Rightarrow> map (dot r) (weight L)
      | Some b \<Rightarrow> map2 (+) (map (dot r) (weight L)) b)"

definition linear_forward :: "linear \<Rightarrow> matrix \<Rightarrow> error + matrix" where
  "linear_forward L x =
     (if list_all (\<lambda>r. length r = in_features L) x
      then Inr (map (linear_row L) x)
      else Inl ShapeMismatch)"

section \<open>GraphConvolution\<close>

text \<open>
  The layer owns one \<open>Linear\<close>; its constructor fixes the aggregation to \<open>'add'\<close>, which
  \<open>propagate\<close> carries out as a scatter-add of the messages over the target indices.
\<close>

record graph_conv =
  lin :: linear

definition message :: "matrix \<Rightarrow> vec \<Rightarrow> matrix" where
  "message x_j nrm = map2 (\<lambda>c r. map (\<lambda>v. c * v) r) nrm x_j"

definition update :: "matrix \<Rightarrow> matrix" where
  "update aggr_out = aggr_out"

text \<open>
  \<open>propagate(edge_index, size=(N, N), x=x, norm=norm)\<close> with the default flow: \<open>x_j\<close>
  gathers the rows of \<open>x\<close> at \<open>edge_index[0]\<close>, \<open>message\<close> scales them, and the messages
  are summed into \<open>N\<close> zero rows at \<open>edge_index[1]\<close>.
\<close>

definition propagate :: "edge_index \<Rightarrow> nat \<Rightarrow> matrix \<Rightarrow> vec \<Rightarrow> error + matrix" where
  "propagate edge_index n x nrm =
     (case traverse (index_select x) (map fst edge_index) of
        Inl e \<Rightarrow> Inl e
      | Inr x_j \<Rightarrow>
          (let msgs = message x_j nrm in
           case scatter_add vadd (replicate n (replicate (width msgs) 0))
                  (map snd edge_index) msgs of
             Inl e \<Rightarrow> Inl e
           | Inr aggr_out \<Rightarrow> Inr (update aggr_out)))"

text \<open>The normalisation of step 3, from the augmented edge list and the node count.\<close>

definition normalization :: "edge_index \<Rightarrow> nat \<Rightarrow> error + vec" where
  "normalization edge_index n =
     (let row = map fst edge_index; col = map snd edge_index in
      case degree row n of
        Inl e \<Rightarrow> Inl e
      | Inr deg \<Rightarrow>
          (case traverse pow_neg_half deg of
             Inl e \<Rightarrow> Inl e
           | Inr deg_inv_sqrt \<Rightarrow>
               (case traverse (getitem deg_inv_sqrt) row of
                  Inl e \<Rightarrow> Inl e
                | Inr a \<Rightarrow>
                    (case traverse (getitem deg_inv_sqrt) col of
                       Inl e \<Rightarrow> Inl e
                     | Inr b \<Rightarrow> Inr (map2 (*) a b)))))"

definition GraphConvolution_forward :: "graph_conv \<Rightarrow> matrix \<Rightarrow> edge_index \<Rightarrow> error + matrix" where
  "GraphConvolution_forward gc x edge_index =
     (let n = length x;
          edge_index' = add_self_loops edge_index n
      in case linear_forward (lin gc) x of
           Inl e \<Rightarrow> Inl e
         | Inr x' \<Rightarrow>
             (case normalization edge_index' (length x') of
                Inl e \<Rightarrow> Inl e
              | Inr nrm \<Rightarrow> propagate edge_index' (length x') x' nrm))"


subsection \<open>Vocabulary for the properties of the layer\<close>

definition in_range :: "nat \<Rightarrow> int \<Rightarrow> bool" where
  "in_range n i \<longleftrightarrow> 0 \<le> i \<and> i < int n"

definition valid_edges :: "nat \<Rightarrow> edge_index \<Rightarrow> bool" where
  "valid_edges n es \<longleftrightarrow> list_all (\<lambda>e. in_range n (fst e) \<and> in_range n (snd e)) es"

text \<open>Edges leaving a node (it is \<open>edge_index[0]\<close>) and edges entering it (\<open>edge_index[1]\<close>).\<close>

definition count_source :: "edge_index \<Rightarrow> int \<Rightarrow> nat" where
  "count_source es i = length (filter (\<lambda>e. fst e = i) es)"

definition count_target :: "edge_index \<Rightarrow> int \<Rightarrow> nat" where
  "count_target es i = length (filter (\<lambda>e. snd e = i) es)"

definition incoming :: "edge_index \<Rightarrow> nat \<Rightarrow> edge_index" where
  "incoming es i = filter (\<lambda>e. snd e = int i) es"

text \<open>The coefficient of the edge \<open>(j, i)\<close> for a degree vector.\<close>

definition coefficient :: "vec \<Rightarrow> int \<times> int \<Rightarrow> real" where
  "coefficient deg e = 1 / (sqrt (deg ! nat (snd e)) * sqrt (deg ! nat (fst e)))"

text \<open>
  Two degree vectors for an edge list on \<open>n\<close> nodes: the number of edges leaving each
  node, and the number of edges entering it.
\<close>

definition source_degree :: "edge_index \<Rightarrow> nat \<Rightarrow> vec" where
  "source_degree es n = map (\<lambda>i. real (count_source es (int i))) [0..<n]"

definition in_degree :: "edge_index \<Rightarrow> nat \<Rightarrow> vec" where
  "in_degree es n = map (\<lambda>i. real (count_target es (int i))) [0..<n]"

text \<open>
  The normalised sum at node \<open>i\<close>, in words: over the edges \<open>(j, i)\<close> of \<open>es\<close>, every
  occurrence counted, add up \<open>coefficient (j, i) * x'[j]\<close>, entry by entry for \<open>F\<close> entries.
\<close>

definition normalized_sum :: "vec \<Rightarrow> matrix \<Rightarrow> edge_index \<Rightarrow> nat \<Rightarrow> nat \<Rightarrow> vec" where
  "normalized_sum deg x' es F i =
     map (\<lambda>k. \<Sum>e\<leftarrow>incoming es i. coefficient deg e * x' ! nat (fst e) ! k) [0..<F]"

section \<open>Net\<close>

record net =
  conv1 :: graph_conv
  conv2 :: graph_conv
  dropout :: real

record data =
  data_x :: matrix
  data_edge_index :: edge_index
  data_y :: "int list"
  data_test_mask :: "bool list"

definition F_relu :: "matrix \<Rightarrow> matrix" where
  "F_relu input = map (map (\<lambda>v. max 0 v)) input"

text \<open>
  \<open>F.dropout(input, p, training)\<close>. The random draw of a training pass is the argument
  \<open>keep\<close>: entry \<open>(i, k)\<close> survives when \<open>keep i k\<close>, and is then rescaled.
\<close>

definition F_dropout :: "matrix \<Rightarrow> real \<Rightarrow> bool \<Rightarrow> (nat \<Rightarrow> nat \<Rightarrow> bool) \<Rightarrow> error + matrix" where
  "F_dropout input p training keep =
     (if p < 0 \<or> 1 < p then Inl ValueError
      else if training
      then Inr (map (\<lambda>i. map (\<lambda>k. if keep i k \<and> p < 1 then input ! i ! k / (1 - p) else 0)
                            [0..<length (input ! i)])
                 [0..<length input])
      else Inr input)"

text \<open>
  \<open>F.log_softmax(x, dim=1)\<close> is a library function on floats whose result is decided by
  rounding and overflow. It is an argument \<open>log_softmax\<close> of the forward pass, and nothing
  is assumed about it.
\<close>

definition Net_forward ::
  "net \<Rightarrow> (matrix \<Rightarrow> matrix) \<Rightarrow> bool \<Rightarrow> (nat \<Rightarrow> nat \<Rightarrow> bool) \<Rightarrow> data \<Rightarrow> error + matrix" where
  "Net_forward m log_softmax training keep d =
     (case GraphConvolution_forward (conv1 m) (data_x d) (data_edge_index d) of
        Inl e \<Rightarrow> Inl e
      | Inr h \<Rightarrow>
          (case F_dropout (F_relu h) (dropout m) training keep of
             Inl e \<Rightarrow> Inl e
           | Inr h' \<Rightarrow>
               (case GraphConvolution_forward (conv2 m) h' (data_edge_index d) of
                  Inl e \<Rightarrow> Inl e
                | Inr z \<Rightarrow> Inr (log_softmax z))))"

section \<open>Evaluation\<close>

text \<open>
  \<open>t.max(dim=1)\<close>, of which the cell keeps the indices: per row the position of the
  first greatest entry; a row with no entry cannot be reduced.
\<close>

fun argmax_from :: "real \<Rightarrow> nat \<Rightarrow> nat \<Rightarrow> vec \<Rightarrow> nat" where
  "argmax_from best bi i [] = bi"
| "argmax_from best bi i (v # vs) =
     (if best < v then argmax_from v i (Suc i) vs else argmax_from best bi (Suc i) vs)"

definition argmax_row :: "vec \<Rightarrow> error + int" where
  "argmax_row r =
     (case r of [] \<Rightarrow> Inl EmptyReduction | v # vs \<Rightarrow> Inr (int (argmax_from v 0 1 vs)))"

definition max_dim1 :: "matrix \<Rightarrow> error + int list" where
  "max_dim1 t = traverse argmax_row t"

text \<open>\<open>t[mask]\<close> with a boolean mask of the length of \<open>t\<close>.\<close>

definition masked :: "'a list \<Rightarrow> bool list \<Rightarrow> error + 'a list" where
  "masked t msk =
     (if length msk = length t then Inr (map fst (filter snd (zip t msk)))
      else Inl IndexOutOfRange)"

definition accuracy :: "int list \<Rightarrow> int list \<Rightarrow> bool list \<Rightarrow> error + real" where
  "accuracy pred y test_mask =
     (case masked pred test_mask of
        Inl e \<Rightarrow> Inl e
      | Inr p \<Rightarrow>
          (case masked y test_mask of
             Inl e \<Rightarrow> Inl e
           | Inr t \<Rightarrow>
               (let correct = real (length (filter (\<lambda>pt. fst pt = snd pt) (zip p t)));
                    total = length (filter id test_mask)
                in if total = 0 then Inl ZeroDivisionError else Inr (correct / real total))))"

text \<open>The evaluation cell: \<open>model.eval()\<close>, the forward pass, the arg-max, the accuracy.\<close>

definition evaluate :: "net \<Rightarrow> (matrix \<Rightarrow> matrix) \<Rightarrow> data \<Rightarrow> error + real" where
  "evaluate m log_softmax d =
     (case Net_forward m log_softmax False (\<lambda>i k. True) d of
        Inl e \<Rightarrow> Inl e
      | Inr out \<Rightarrow>
          (case max_dim1 out of
             Inl e \<Rightarrow> Inl e
           | Inr pred \<Rightarrow> accuracy pred (data_y d) (data_test_mask d)))"

section \<open>Concrete instances\<close>

definition ex_conv :: graph_conv where
  "ex_conv = \<lparr>lin = \<lparr>in_features = 2, out_features = 1, weight = [[1, 2]], bias = Some [3]\<rparr>\<rparr>"

definition ex_x :: matrix where
  "ex_x = [[1, 0], [0, 1], [1, 1]]"

definition ex_edges :: edge_index where
  "ex_edges = [(0, 1), (1, 2), (1, 0), (2, 1)]"

definition ex_loop_x :: matrix where
  "ex_loop_x = [[1, 0], [0, 1]]"

definition ex_loop_edges :: edge_index where
  "ex_loop_edges = [(0, 0), (0, 1), (1, 0)]"

definition ex_net :: net where
  "ex_net = \<lparr>conv1 = \<lparr>lin = \<lparr>in_features = 2, out_features = 2,
                                weight = [[1, 0], [0, 1]], bias = Some [0, 0]\<rparr>\<rparr>,
              conv2 = \<lparr>lin = \<lparr>in_features = 2, out_features = 2,
                                weight = [[1, 2], [0, 1]], bias = None\<rparr>\<rparr>,
              dropout = 1 / 2\<rparr>"

definition ex_data :: data where
  "ex_data = \<lparr>data_x = ex_x, data_edge_index = ex_edges,
               data_y = [0, 1, 1], data_test_mask = [False, True, True]\<rparr>"

definition ex_swap_net :: net where
  "ex_swap_net = \<lparr>conv1 = \<lparr>lin = \<lparr>in_features = 2, out_features = 2,
                                     weight = [[1, 0], [0, 1]], bias = Some [0, 0]\<rparr>\<rparr>,
                   conv2 = \<lparr>lin = \<lparr>in_features = 2, out_features = 2,
                                     weight = [[0, 1], [1, 0]], bias = None\<rparr>\<rparr>,
                   dropout = 1 / 2\<rparr>"

definition ex_fan_edges :: edge_index where
  "ex_fan_edges = [(0, 1), (0, 1), (0, 2)]"

definition ex_fan_x :: matrix where
  "ex_fan_x = [[1, 0], [0, 1], [0, 2]]"

definition ex_fan_data :: data where
  "ex_fan_data = \<lparr>data_x = ex_fan_x, data_edge_index = ex_fan_edges,
                   data_y = [1, 0, 0], data_test_mask = [False, True, True]\<rparr>"

definition ex_fan_data_all :: data where
  "ex_fan_data_all = \<lparr>data_x = ex_fan_x, data_edge_index = ex_fan_edges,
                       data_y = [1, 1, 0], data_test_mask = [True, True, True]\<rparr>"

definition ex_id_conv :: graph_conv where
  "ex_id_conv = \<lparr>lin = \<lparr>in_features = 1, out_features = 1, weight = [[1]], bias = None\<rparr>\<rparr>"

definition ex_ones_x :: matrix where
  "ex_ones_x = [[1], [1]]"



definition ex_multi_edges :: edge_index where
  "ex_multi_edges = [(0, 1), (0, 1), (0, 1)]"


definition ex_bad_edges :: edge_index where
  "ex_bad_edges = [(0, 1), (1, 3)]"

definition ex_neg_edges :: edge_index where
  "ex_neg_edges = [(0, 1), (1, - 1)]"

definition ex_wide_x :: matrix where
  "ex_wide_x = [[1, 0, 0], [0, 1, 0], [0, 0, 1]]"

section \<open>Scatter-add and the degree vector\<close>

lemma scatter_add_length:
  "scatter_add f out idx src = Inr r \<Longrightarrow> length r = length out"
  by (induction f out idx src rule: scatter_add.induct) (auto split: if_splits)

lemma scatter_add_nth:
  "scatter_add f out idx src = Inr r \<Longrightarrow> i < length out \<Longrightarrow>
   r ! i = foldl f (out ! i) (map snd (filter (\<lambda>p. fst p = int i) (zip idx src)))"
proof (induction f out idx src rule: scatter_add.induct)
  case (2 f out j idx s src)
  then have ok: "0 \<le> j" "j < int (length out)"
    and rest: "scatter_add f (out[nat j := f (out ! nat j) s]) idx src = Inr r"
    by (auto split: if_splits)
  have "r ! i = foldl f ((out[nat j := f (out ! nat j) s]) ! i)
                  (map snd (filter (\<lambda>p. fst p = int i) (zip idx src)))"
    using 2 ok rest by simp
  then show ?case
    using ok 2(3) by (cases "j = int i") (auto simp: nth_list_update)
qed auto

lemma scatter_add_ok:
  "list_all (in_range (length out)) idx \<Longrightarrow> length idx = length src \<Longrightarrow>
   \<exists>r. scatter_add f out idx src = Inr r"
  by (induction f out idx src rule: scatter_add.induct) (auto simp: in_range_def)

lemma scatter_add_bad:
  "\<not> list_all (in_range (length out)) idx \<Longrightarrow> length idx = length src \<Longrightarrow>
   scatter_add f out idx src = Inl IndexOutOfRange"
  by (induction f out idx src rule: scatter_add.induct) (auto simp: in_range_def)

lemma foldl_count_ones:
  "foldl (+) a (map snd (filter (\<lambda>p. fst p = k) (zip idx (replicate (length idx) (1::real))))) =
   a + real (length (filter (\<lambda>j. j = k) idx))"
  by (induction idx arbitrary: a) auto

lemma degree_length: "degree index n = Inr deg \<Longrightarrow> length deg = n"
  unfolding degree_def by (drule scatter_add_length) simp

lemma degree_nth:
  "degree index n = Inr deg \<Longrightarrow> i < n \<Longrightarrow>
   deg ! i = real (length (filter (\<lambda>j. j = int i) index))"
  unfolding degree_def
  by (drule scatter_add_nth [where i = i]) (auto simp: foldl_count_ones)

lemma degree_ok:
  "list_all (in_range n) index \<Longrightarrow> \<exists>deg. degree index n = Inr deg"
  unfolding degree_def by (rule scatter_add_ok) auto

lemma degree_bad:
  "\<not> list_all (in_range n) index \<Longrightarrow> degree index n = Inl IndexOutOfRange"
  unfolding degree_def by (rule scatter_add_bad) auto

lemma degree_rows:
  assumes "list_all (in_range n) (map fst es)"
  shows "degree (map fst es) n = Inr (map (\<lambda>i. real (count_source es (int i))) [0..<n])"
proof -
  obtain deg where d: "degree (map fst es) n = Inr deg"
    using degree_ok [OF assms] by blast
  have "deg = map (\<lambda>i. real (count_source es (int i))) [0..<n]"
    by (rule nth_equalityI)
       (simp_all add: degree_length [OF d] degree_nth [OF d] count_source_def comp_def)
  with d show ?thesis by simp
qed

lemma valid_edges_self_loops:
  "valid_edges n es \<Longrightarrow> valid_edges n (add_self_loops es n)"
  by (auto simp: valid_edges_def add_self_loops_def list_all_iff in_range_def)

lemma valid_edges_rows:
  "valid_edges n es \<Longrightarrow> list_all (in_range n) (map fst es)"
  by (simp add: valid_edges_def list_all_iff)

lemma valid_edges_cols:
  "valid_edges n es \<Longrightarrow> list_all (in_range n) (map snd es)"
  by (simp add: valid_edges_def list_all_iff)

lemma count_source_self_loops:
  "i < n \<Longrightarrow> count_source (add_self_loops es n) (int i) = count_source es (int i) + 1"
proof -
  assume "i < n"
  then have "filter (\<lambda>k. k = i) [0..<n] = [i]"
    by (induction n) auto
  then have "length (filter (\<lambda>k. int k = int i) [0..<n]) = 1" by simp
  then show ?thesis
    by (simp add: count_source_def add_self_loops_def filter_map comp_def)
qed

lemma count_target_self_loops:
  "i < n \<Longrightarrow> count_target (add_self_loops es n) (int i) = count_target es (int i) + 1"
proof -
  assume "i < n"
  then have "filter (\<lambda>k. k = i) [0..<n] = [i]"
    by (induction n) auto
  then have "length (filter (\<lambda>k. int k = int i) [0..<n]) = 1" by simp
  then show ?thesis
    by (simp add: count_target_def add_self_loops_def filter_map comp_def)
qed

lemma count_symmetric:
  assumes "mset (map prod.swap es) = mset es"
  shows "count_target es i = count_source es i"
proof -
  have "count_target es i = size (filter_mset (\<lambda>e. snd e = i) (mset es))"
    by (simp add: count_target_def flip: mset_filter)
  also have "\<dots> = size (filter_mset (\<lambda>e. snd e = i) (mset (map prod.swap es)))"
    using assms by simp
  also have "\<dots> = size (filter_mset (\<lambda>e. fst e = i) (mset es))"
    by (simp add: filter_map comp_def flip: mset_filter mset_map)
  also have "\<dots> = count_source es i"
    by (simp add: count_source_def flip: mset_filter)
  finally show ?thesis .
qed

section \<open>Normalisation and propagation\<close>

lemma traverse_map:
  "list_all (\<lambda>a. f a = Inr (g a)) xs \<Longrightarrow> traverse f xs = Inr (map g xs)"
  by (induction xs) auto

lemma traverse_Inl:
  "traverse f xs = Inl e \<Longrightarrow> \<exists>a\<in>set xs. f a = Inl e"
  by (induction xs) (auto split: sum.splits)

lemma getitem_in_range:
  "in_range (length t) i \<Longrightarrow> getitem t i = Inr (t ! nat i)"
  by (simp add: getitem_def in_range_def)

lemma index_select_in_range:
  "in_range (length t) i \<Longrightarrow> index_select t i = Inr (t ! nat i)"
  by (simp add: index_select_def in_range_def)

lemma pow_neg_half_all:
  "list_all (\<lambda>d. 0 < d) deg \<Longrightarrow>
   traverse pow_neg_half deg = Inr (map (\<lambda>d. 1 / sqrt d) deg)"
  by (rule traverse_map) (simp add: pow_neg_half_def list_all_iff)

lemma normalization_eq:
  assumes v: "valid_edges n es"
    and d: "degree (map fst es) n = Inr deg"
    and pos: "list_all (\<lambda>d. 0 < d) deg"
  shows "normalization es n = Inr (map (coefficient deg) es)"
proof -
  let ?dis = "map (\<lambda>d. 1 / sqrt d) deg"
  have len: "length ?dis = n" using degree_length [OF d] by simp
  have a: "traverse (getitem ?dis) (map fst es) = Inr (map (\<lambda>i. ?dis ! nat i) (map fst es))"
    using valid_edges_rows [OF v] len
    by (intro traverse_map) (simp add: list_all_iff getitem_in_range)
  have b: "traverse (getitem ?dis) (map snd es) = Inr (map (\<lambda>i. ?dis ! nat i) (map snd es))"
    using valid_edges_cols [OF v] len
    by (intro traverse_map) (simp add: list_all_iff getitem_in_range)
  have c: "map2 (*) (map (\<lambda>i. ?dis ! nat i) (map fst es)) (map (\<lambda>i. ?dis ! nat i) (map snd es))
           = map (coefficient deg) es"
  proof -
    have "\<And>e. e \<in> set es \<Longrightarrow>
            ?dis ! nat (fst e) * ?dis ! nat (snd e) = coefficient deg e"
    proof -
      fix e assume "e \<in> set es"
      with v have "nat (fst e) < n" "nat (snd e) < n"
        by (auto simp: valid_edges_def list_all_iff in_range_def)
      then show "?dis ! nat (fst e) * ?dis ! nat (snd e) = coefficient deg e"
        using degree_length [OF d] by (simp add: coefficient_def)
    qed
    moreover have "map2 (*) (map (\<lambda>i. ?dis ! nat i) (map fst es))
                     (map (\<lambda>i. ?dis ! nat i) (map snd es))
                   = map (\<lambda>e. ?dis ! nat (fst e) * ?dis ! nat (snd e)) es"
      by (induction es) simp_all
    ultimately show ?thesis by simp
  qed
  show ?thesis
    unfolding normalization_def Let_def
    by (simp add: d pow_neg_half_all [OF pos] a b c del: map_map)
qed

lemma foldl_vadd:
  "list_all (\<lambda>v. length v = F) vs \<Longrightarrow> length z = F \<Longrightarrow>
   foldl vadd z vs = map (\<lambda>k. z ! k + (\<Sum>v\<leftarrow>vs. v ! k)) [0..<F]"
proof (induction vs arbitrary: z)
  case Nil
  then show ?case by (auto intro: nth_equalityI)
next
  case (Cons v vs)
  then have lv: "length v = F" and rest: "list_all (\<lambda>v. length v = F) vs" by simp_all
  have lz: "length (vadd z v) = F" using Cons.prems lv by (simp add: vadd_def)
  show ?case
    using Cons.IH [OF rest lz] Cons.prems(2) lv
    by (simp add: vadd_def add.assoc)
qed

lemma propagate_eq:
  assumes v: "valid_edges n es" and lx: "length x = n"
    and wx: "list_all (\<lambda>r. length r = F) x"
    and ne: "es = [] \<longrightarrow> n = 0"
  shows "\<exists>y. propagate es n x (map cf es) = Inr y \<and> length y = n \<and>
             (\<forall>i<n. y ! i = map (\<lambda>k. \<Sum>e\<leftarrow>incoming es i. cf e * x ! nat (fst e) ! k) [0..<F])"
proof -
  let ?m = "\<lambda>e. map (\<lambda>v. cf e * v) (x ! nat (fst e))"
  have xj: "traverse (index_select x) (map fst es) = Inr (map (\<lambda>i. x ! nat i) (map fst es))"
    using valid_edges_rows [OF v] lx
    by (intro traverse_map) (simp add: list_all_iff index_select_in_range)
  have msgs: "message (map (\<lambda>i. x ! nat i) (map fst es)) (map cf es) = map ?m es"
    by (simp add: message_def map2_map_map)
  have mlen: "list_all (\<lambda>r. length r = F) (map ?m es)"
    using v wx lx by (auto simp: list_all_iff valid_edges_def in_range_def)
  have w: "replicate n (replicate (width (map ?m es)) (0::real)) = replicate n (replicate F 0)"
  proof (cases es)
    case Nil
    with ne show ?thesis by simp
  next
    case (Cons e es')
    with mlen show ?thesis by (simp add: width_def)
  qed
  obtain y where y: "scatter_add vadd (replicate n (replicate F 0)) (map snd es) (map ?m es) = Inr y"
    using scatter_add_ok [of "replicate n (replicate F 0)" "map snd es" "map ?m es" vadd]
      valid_edges_cols [OF v] by auto
  have ylen: "length y = n" using scatter_add_length [OF y] by simp
  have ynth: "y ! i = map (\<lambda>k. \<Sum>e\<leftarrow>incoming es i. cf e * x ! nat (fst e) ! k) [0..<F]"
    if i: "i < n" for i
  proof -
    have sel: "map snd (filter (\<lambda>p. fst p = int i) (zip (map snd es) (map ?m es)))
               = map ?m (incoming es i)"
      by (induction es) (auto simp: incoming_def)
    have l2: "list_all (\<lambda>r. length r = F) (map ?m (incoming es i))"
      using mlen by (auto simp: list_all_iff incoming_def)
    have inc: "\<And>e. e \<in> set (incoming es i) \<Longrightarrow> nat (fst e) < length x"
      using v lx by (auto simp: incoming_def valid_edges_def list_all_iff in_range_def)
    have "y ! i = foldl vadd (replicate F 0) (map ?m (incoming es i))"
      using scatter_add_nth [OF y, of i] i sel by simp
    also have "\<dots> = map (\<lambda>k. (replicate F (0::real)) ! k + (\<Sum>r\<leftarrow>map ?m (incoming es i). r ! k)) [0..<F]"
      by (rule foldl_vadd [OF l2]) simp
    also have "\<dots> = map (\<lambda>k. \<Sum>e\<leftarrow>incoming es i. cf e * x ! nat (fst e) ! k) [0..<F]"
    proof (rule map_cong [OF refl])
      fix k assume "k \<in> set [0..<F]"
      then have k: "k < F" by simp
      have "(\<Sum>r\<leftarrow>map ?m (incoming es i). r ! k) = (\<Sum>e\<leftarrow>incoming es i. cf e * x ! nat (fst e) ! k)"
        unfolding map_map comp_def
      proof (rule arg_cong [where f = sum_list], rule map_cong [OF refl])
        fix e assume e: "e \<in> set (incoming es i)"
        have "length (x ! nat (fst e)) = F"
          using wx inc [OF e] by (simp add: list_all_length)
        then show "map ((*) (cf e)) (x ! nat (fst e)) ! k = cf e * x ! nat (fst e) ! k"
          using k by simp
      qed
      then show "replicate F (0::real) ! k + (\<Sum>r\<leftarrow>map ?m (incoming es i). r ! k)
                 = (\<Sum>e\<leftarrow>incoming es i. cf e * x ! nat (fst e) ! k)"
        using k by simp
    qed
    finally show ?thesis .
  qed
  have "propagate es n x (map cf es) = Inr y"
    unfolding propagate_def Let_def by (simp add: xj msgs w y update_def del: map_map)
  with ylen ynth show ?thesis by blast
qed

section \<open>The forward pass of the layer\<close>

lemma linear_forward_ok:
  "list_all (\<lambda>r. length r = in_features L) x \<Longrightarrow>
   linear_forward L x = Inr (map (linear_row L) x)"
  by (simp add: linear_forward_def)

lemma linear_row_length:
  "wf_linear L \<Longrightarrow> length (linear_row L r) = out_features L"
  by (auto simp: wf_linear_def linear_row_def split: option.splits)

lemma incoming_self_loops:
  "i < n \<Longrightarrow> incoming (add_self_loops es n) i = incoming es i @ [(int i, int i)]"
proof -
  assume "i < n"
  then have "filter (\<lambda>k. k = i) [0..<n] = [i]"
    by (induction n) auto
  then have "filter (\<lambda>e. snd e = int i) (map (\<lambda>k. (int k, int k)) [0..<n]) = [(int i, int i)]"
    by (simp add: filter_map comp_def)
  then show ?thesis
    by (simp add: incoming_def add_self_loops_def)
qed

lemma degree_self_loops:
  assumes "valid_edges n es"
  shows "degree (map fst (add_self_loops es n)) n =
           Inr (map (\<lambda>i. real (count_source es (int i)) + 1) [0..<n])"
proof -
  have "degree (map fst (add_self_loops es n)) n =
          Inr (map (\<lambda>i. real (count_source (add_self_loops es n) (int i))) [0..<n])"
    by (rule degree_rows [OF valid_edges_rows [OF valid_edges_self_loops [OF assms]]])
  moreover have "map (\<lambda>i. real (count_source (add_self_loops es n) (int i))) [0..<n]
               = map (\<lambda>i. real (count_source es (int i)) + 1) [0..<n]"
    by (rule map_cong [OF refl]) (simp add: count_source_self_loops)
  ultimately show ?thesis by simp
qed

lemma forward_eq:
  assumes wf: "wf_linear (lin gc)"
    and wx: "list_all (\<lambda>r. length r = in_features (lin gc)) x"
    and v: "valid_edges (length x) es"
    and deg: "deg = map (\<lambda>i. real (count_source es (int i)) + 1) [0..<length x]"
    and x': "x' = map (linear_row (lin gc)) x"
    and aug: "aug = add_self_loops es (length x)"
  shows "\<exists>y. GraphConvolution_forward gc x es = Inr y \<and> length y = length x \<and>
           (\<forall>i<length x. y ! i =
              map (\<lambda>k. \<Sum>e\<leftarrow>incoming aug i. coefficient deg e * x' ! nat (fst e) ! k)
                [0..<out_features (lin gc)])"
proof -
  have va: "valid_edges (length x) aug"
    unfolding aug by (rule valid_edges_self_loops [OF v])
  have d: "degree (map fst aug) (length x) = Inr deg"
    unfolding aug deg by (rule degree_self_loops [OF v])
  have pos: "list_all (\<lambda>d. 0 < d) deg"
    unfolding deg by (simp add: list_all_iff add_pos_nonneg)
  have nrm: "normalization aug (length x) = Inr (map (coefficient deg) aug)"
    by (rule normalization_eq [OF va d pos])
  have lx': "length x' = length x" unfolding x' by simp
  have wx': "list_all (\<lambda>r. length r = out_features (lin gc)) x'"
    unfolding x' by (simp add: list_all_iff linear_row_length [OF wf])
  have ne: "aug = [] \<longrightarrow> length x = 0"
    unfolding aug add_self_loops_def by simp
  obtain y where y: "propagate aug (length x) x' (map (coefficient deg) aug) = Inr y"
    "length y = length x"
    "\<forall>i<length x. y ! i =
        map (\<lambda>k. \<Sum>e\<leftarrow>incoming aug i. coefficient deg e * x' ! nat (fst e) ! k)
          [0..<out_features (lin gc)]"
    using propagate_eq [OF va lx' wx' ne, of "coefficient deg"] by blast
  have "GraphConvolution_forward gc x es = Inr y"
    unfolding GraphConvolution_forward_def Let_def
    using linear_forward_ok [OF wx] nrm y(1) lx' by (simp add: x' [symmetric] aug [symmetric])
  with y(2,3) show ?thesis by blast
qed

section \<open>Self-loops, degrees and finiteness\<close>

lemma count_list_loops:
  "count_list (map (\<lambda>k. (int k, int k)) [0..<n]) (int i, int i) = (if i < n then 1 else 0)"
  by (induction n) auto

lemma count_list_self_loops:
  "i < n \<Longrightarrow>
   count_list (add_self_loops es n) (int i, int i) = count_list es (int i, int i) + 1"
  by (simp add: add_self_loops_def count_list_loops)

lemma scatter_add_error:
  "scatter_add f out idx src = Inl e \<Longrightarrow> e = IndexOutOfRange \<or> e = ShapeMismatch"
  by (induction f out idx src rule: scatter_add.induct) (auto split: if_splits)

lemma degree_Inr_rows:
  "degree index n = Inr deg \<Longrightarrow> list_all (in_range n) index"
  using degree_bad [of n index] by auto

lemma normalization_finite:
  "normalization (add_self_loops es n) n \<noteq> Inl NonFinite"
proof (cases "degree (map fst (add_self_loops es n)) n")
  case (Inl e)
  then have "e \<noteq> NonFinite"
    unfolding degree_def by (auto dest: scatter_add_error)
  with Inl show ?thesis by (simp add: normalization_def)
next
  case (Inr deg)
  have rows: "list_all (in_range n) (map fst (add_self_loops es n))"
    by (rule degree_Inr_rows [OF Inr])
  have "deg = map (\<lambda>i. real (count_source (add_self_loops es n) (int i))) [0..<n]"
    using degree_rows [OF rows] Inr by simp
  then have pos: "list_all (\<lambda>d. 0 < d) deg"
    by (simp add: list_all_iff count_source_self_loops)
  have g: "e \<noteq> NonFinite" if "traverse (getitem t) ix = Inl e" for t :: "real list" and ix e
    using that by (auto dest!: traverse_Inl simp: getitem_def split: if_splits)
  show ?thesis
    unfolding normalization_def Let_def
    by (auto simp: Inr pow_neg_half_all [OF pos] split: sum.splits dest: g)
qed

lemma index_select_error: "index_select t i = Inl e \<Longrightarrow> e = IndexOutOfRange"
  by (simp add: index_select_def split: if_splits)

lemma propagate_finite: "propagate es n x nrm \<noteq> Inl NonFinite"
proof (cases "traverse (index_select x) (map fst es)")
  case (Inl e)
  then obtain a where "index_select x a = Inl e"
    using traverse_Inl by blast
  then have "e = IndexOutOfRange" by (rule index_select_error)
  with Inl show ?thesis by (simp add: propagate_def)
next
  case (Inr x_j)
  show ?thesis
  proof (cases "scatter_add vadd (replicate n (replicate (width (message x_j nrm)) 0))
                  (map snd es) (message x_j nrm)")
    case (Inl e)
    then have "e \<noteq> NonFinite" using scatter_add_error by fastforce
    with Inl Inr show ?thesis by (simp add: propagate_def)
  next
    case r: (Inr y)
    with Inr show ?thesis by (simp add: propagate_def)
  qed
qed

lemma forward_finite: "GraphConvolution_forward gc x es \<noteq> Inl NonFinite"
proof (cases "linear_forward (lin gc) x")
  case (Inl e)
  then have "e = ShapeMismatch" by (simp add: linear_forward_def split: if_splits)
  with Inl show ?thesis by (simp add: GraphConvolution_forward_def)
next
  case (Inr x')
  then have lx: "length x' = length x"
    by (auto simp: linear_forward_def split: if_splits)
  show ?thesis
  proof (cases "normalization (add_self_loops es (length x)) (length x)")
    case (Inl e)
    then have "e \<noteq> NonFinite" using normalization_finite by metis
    with Inl Inr lx show ?thesis by (simp add: GraphConvolution_forward_def)
  next
    case r: (Inr nrm)
    with Inr lx propagate_finite show ?thesis by (simp add: GraphConvolution_forward_def)
  qed
qed

text \<open>
  C2 (as amended). The degree vector of a forward call counts, for every node \<open>i\<close>, the
  edges of the self-loop-augmented list whose source \<open>edge_index[0]\<close> is \<open>i\<close>; it is the
  vector the normalisation coefficients are built from, and it is computed from the
  arguments of the call alone. When the edge list is symmetric (every edge present in both
  directions, as for an undirected graph) this is also the number of edges whose target is
  \<open>i\<close>.
\<close>
theorem degree_counts_sources:
  assumes "valid_edges n es"
  shows "\<exists>deg. degree (map fst (add_self_loops es n)) n = Inr deg \<and>
           deg = map (\<lambda>i. real (count_source (add_self_loops es n) (int i))) [0..<n] \<and>
           normalization (add_self_loops es n) n =
             Inr (map (coefficient deg) (add_self_loops es n)) \<and>
           (mset (map prod.swap es) = mset es \<longrightarrow>
              (\<forall>i<n. count_source (add_self_loops es n) (int i) =
                      count_target (add_self_loops es n) (int i)))"
proof -
  let ?aug = "add_self_loops es n"
  let ?deg = "map (\<lambda>i. real (count_source ?aug (int i))) [0..<n]"
  have va: "valid_edges n ?aug" by (rule valid_edges_self_loops [OF assms])
  have d: "degree (map fst ?aug) n = Inr ?deg"
    by (rule degree_rows [OF valid_edges_rows [OF va]])
  have pos: "list_all (\<lambda>d. 0 < d) ?deg"
    by (simp add: list_all_iff count_source_self_loops)
  have nrm: "normalization ?aug n = Inr (map (coefficient ?deg) ?aug)"
    by (rule normalization_eq [OF va d pos])
  have sym: "mset (map prod.swap es) = mset es \<longrightarrow>
               (\<forall>i<n. count_source ?aug (int i) = count_target ?aug (int i))"
    by (simp add: count_source_self_loops count_target_self_loops count_symmetric)
  from d nrm sym show ?thesis by blast
qed

theorem degree_counts_sources_witness:
  "valid_edges 3 ex_edges \<and> mset (map prod.swap ex_edges) = mset ex_edges \<and>
   degree (map fst (add_self_loops ex_edges 3)) 3 = Inr [2, 3, 2] \<and>
   count_target (add_self_loops ex_edges 3) 1 = 3"
proof -
  have v: "valid_edges 3 ex_edges"
    by (simp add: valid_edges_def in_range_def ex_edges_def)
  have s: "mset (map prod.swap ex_edges) = mset ex_edges"
    by (simp add: ex_edges_def)
  have c: "map (\<lambda>i. real (count_source (add_self_loops ex_edges 3) (int i))) [0..<3] = [2, 3, 2]"
    by (simp add: count_source_def add_self_loops_def ex_edges_def upt_rec [of 0 3] upt_rec [of 1 3] upt_rec [of 2 3]
          numeral_3_eq_3)
  have t: "count_source (add_self_loops ex_edges 3) (int 1) = 3"
    by (simp add: count_source_def add_self_loops_def ex_edges_def numeral_3_eq_3)
  from degree_counts_sources [OF v] s c t v show ?thesis
    by (auto simp: numeral_3_eq_3)
qed

text \<open>
  C2 as stated fails on a directed edge list: for the single edge \<open>0 \<rightarrow> 1\<close> on two nodes
  the degree vector is \<open>[2, 1]\<close>, while one edge enters node 0 and two enter node 1.
\<close>

theorem degree_counts_targets_counterexample:
  "degree (map fst (add_self_loops [(0, 1)] 2)) 2 = Inr [2, 1] \<and>
   count_target (add_self_loops [(0, 1)] 2) 0 = 1 \<and>
   count_target (add_self_loops [(0, 1)] 2) 1 = 2"
  by (simp add: degree_def add_self_loops_def count_target_def numeral_2_eq_2)

text \<open>
  C4. With valid node indices every entry of the degree vector after self-loop augmentation
  is at least 1, so \<open>pow(-0.5)\<close> is finite on every entry; and for no input at all does the
  forward pass end in the non-finite branch.
\<close>
theorem degree_at_least_one:
  assumes "valid_edges n es"
  shows "\<exists>deg. degree (map fst (add_self_loops es n)) n = Inr deg \<and> length deg = n \<and>
           (\<forall>i<n. 1 \<le> deg ! i) \<and>
           traverse pow_neg_half deg = Inr (map (\<lambda>d. 1 / sqrt d) deg) \<and>
           GraphConvolution_forward gc x es \<noteq> Inl NonFinite"
proof -
  let ?deg = "map (\<lambda>i. real (count_source es (int i)) + 1) [0..<n]"
  have d: "degree (map fst (add_self_loops es n)) n = Inr ?deg"
    by (rule degree_self_loops [OF assms])
  have pos: "list_all (\<lambda>d. 0 < d) ?deg"
    by (simp add: list_all_iff add_pos_nonneg)
  have "\<forall>i<n. 1 \<le> ?deg ! i" by simp
  with d pow_neg_half_all [OF pos] forward_finite [of gc x es] show ?thesis
    by (intro exI [of _ ?deg]) simp
qed

theorem degree_at_least_one_witness:
  "valid_edges 3 ex_edges \<and>
   (\<exists>deg. degree (map fst (add_self_loops ex_edges 3)) 3 = Inr deg \<and> length deg = 3 \<and>
           (\<forall>i<3. 1 \<le> deg ! i) \<and>
           traverse pow_neg_half deg = Inr (map (\<lambda>d. 1 / sqrt d) deg) \<and>
           GraphConvolution_forward ex_conv ex_x ex_edges \<noteq> Inl NonFinite)"
proof -
  have v: "valid_edges 3 ex_edges"
    by (simp add: valid_edges_def in_range_def ex_edges_def)
  show ?thesis using v degree_at_least_one [OF v, of ex_conv ex_x] by blast
qed

text \<open>
  C3. The augmentation keeps the given edges and appends exactly one edge \<open>(i, i)\<close> for
  every node \<open>i < N\<close>, whether or not the list already holds one. Every occurrence counts:
  the degree of \<open>i\<close> is one more than the number of given edges leaving \<open>i\<close>, and the
  aggregated row of \<open>i\<close> is the sum over the given edges into \<open>i\<close> (a given self-loop
  among them) plus the term of the appended loop.
\<close>
theorem self_loops_appended_once:
  assumes wf: "wf_linear (lin gc)"
    and wx: "list_all (\<lambda>r. length r = in_features (lin gc)) x"
    and v: "valid_edges (length x) es"
  shows "length (add_self_loops es (length x)) = length es + length x \<and>
         take (length es) (add_self_loops es (length x)) = es \<and>
         (\<forall>i<length x. count_list (add_self_loops es (length x)) (int i, int i) =
                          count_list es (int i, int i) + 1) \<and>
         (\<exists>x' deg y.
            linear_forward (lin gc) x = Inr x' \<and>
            degree (map fst (add_self_loops es (length x))) (length x) = Inr deg \<and>
            deg = map (\<lambda>i. real (count_source es (int i)) + 1) [0..<length x] \<and>
            GraphConvolution_forward gc x es = Inr y \<and>
            (\<forall>i<length x. y ! i =
               map (\<lambda>k. (\<Sum>e\<leftarrow>incoming es i. coefficient deg e * x' ! nat (fst e) ! k)
                          + coefficient deg (int i, int i) * x' ! i ! k)
                 [0..<out_features (lin gc)]))"
proof -
  let ?n = "length x"
  let ?deg = "map (\<lambda>i. real (count_source es (int i)) + 1) [0..<?n]"
  let ?x' = "map (linear_row (lin gc)) x"
  have a: "length (add_self_loops es ?n) = length es + ?n"
    by (simp add: add_self_loops_def)
  have b: "take (length es) (add_self_loops es ?n) = es"
    by (simp add: add_self_loops_def)
  have c: "\<forall>i<?n. count_list (add_self_loops es ?n) (int i, int i) =
                    count_list es (int i, int i) + 1"
    by (simp add: count_list_self_loops)
  obtain y where y: "GraphConvolution_forward gc x es = Inr y"
    and ynth: "\<forall>i<?n. y ! i =
        map (\<lambda>k. \<Sum>e\<leftarrow>incoming (add_self_loops es ?n) i. coefficient ?deg e * ?x' ! nat (fst e) ! k)
          [0..<out_features (lin gc)]"
    using forward_eq [OF wf wx v refl refl refl] by blast
  have "\<forall>i<?n. y ! i =
          map (\<lambda>k. (\<Sum>e\<leftarrow>incoming es i. coefficient ?deg e * ?x' ! nat (fst e) ! k)
                     + coefficient ?deg (int i, int i) * ?x' ! i ! k)
            [0..<out_features (lin gc)]"
  proof (intro allI impI)
    fix i assume i: "i < ?n"
    show "y ! i =
          map (\<lambda>k. (\<Sum>e\<leftarrow>incoming es i. coefficient ?deg e * ?x' ! nat (fst e) ! k)
                     + coefficient ?deg (int i, int i) * ?x' ! i ! k)
            [0..<out_features (lin gc)]"
      using ynth i by (simp add: incoming_self_loops [OF i])
  qed
  with a b c y linear_forward_ok [OF wx] degree_self_loops [OF v] show ?thesis
    by blast
qed

theorem self_loops_appended_once_witness:
  "count_list ex_loop_edges (0, 0) = 1 \<and>
   count_list (add_self_loops ex_loop_edges (length ex_loop_x)) (0, 0) = 2 \<and>
   degree (map fst (add_self_loops ex_loop_edges (length ex_loop_x))) (length ex_loop_x)
     = Inr [3, 2] \<and>
   (\<exists>y. GraphConvolution_forward ex_conv ex_loop_x ex_loop_edges = Inr y)"
proof -
  have a: "wf_linear (lin ex_conv)" by (simp add: wf_linear_def ex_conv_def)
  have b: "list_all (\<lambda>r. length r = in_features (lin ex_conv)) ex_loop_x"
    by (simp add: ex_conv_def ex_loop_x_def)
  have c: "valid_edges (length ex_loop_x) ex_loop_edges"
    by (simp add: valid_edges_def in_range_def ex_loop_x_def ex_loop_edges_def)
  have d: "map (\<lambda>i. real (count_source ex_loop_edges (int i)) + 1) [0..<length ex_loop_x] = [3, 2]"
    by (simp add: count_source_def ex_loop_edges_def ex_loop_x_def upt_rec [of 0] upt_rec [of 1])
  have e: "count_list ex_loop_edges (0, 0) = 1" by (simp add: ex_loop_edges_def)
  have f: "(0::nat) < length ex_loop_x" by (simp add: ex_loop_x_def)
  from self_loops_appended_once [OF a b c] d e f show ?thesis
    by (auto simp del: upt_Suc)
qed

section \<open>The network and the evaluation cell\<close>

lemma F_dropout_eval: "F_dropout h p False keep = F_dropout h p False keep'"
  by (simp add: F_dropout_def)

lemma Net_forward_eval_keep:
  "Net_forward m lsm False keep d = Net_forward m lsm False keep' d"
  unfolding Net_forward_def F_dropout_eval [of _ _ keep keep'] ..

text \<open>
  C7. In evaluation mode the output does not depend on the random draw, and dropout
  returns its input; the mode reaches the output through dropout only: whenever dropout
  acts alike in two modes, so does the whole forward pass.
\<close>

theorem eval_mode_deterministic:
  "Net_forward m lsm False keep d = Net_forward m lsm False keep' d \<and>
   (0 \<le> p \<and> p \<le> 1 \<longrightarrow> F_dropout h p False keep = Inr h) \<and>
   ((\<forall>a. F_dropout a (dropout m) training keep = F_dropout a (dropout m) training' keep') \<longrightarrow>
      Net_forward m lsm training keep d = Net_forward m lsm training' keep' d)"
proof (intro conjI impI)
  show "Net_forward m lsm False keep d = Net_forward m lsm False keep' d"
    by (rule Net_forward_eval_keep)
  show "F_dropout h p False keep = Inr h" if "0 \<le> p \<and> p \<le> 1"
    using that by (simp add: F_dropout_def)
  show "Net_forward m lsm training keep d = Net_forward m lsm training' keep' d"
    if "\<forall>a. F_dropout a (dropout m) training keep = F_dropout a (dropout m) training' keep'"
    unfolding Net_forward_def using that by (simp cong: sum.case_cong)
qed

theorem eval_mode_deterministic_witness:
  "Net_forward ex_net (\<lambda>z. z) False (\<lambda>i k. i = k) ex_data =
     Net_forward ex_net (\<lambda>z. z) False (\<lambda>i k. True) ex_data \<and>
   F_dropout ex_x (1 / 2) False (\<lambda>i k. i = k) = Inr ex_x \<and>
   Net_forward (ex_net\<lparr>dropout := 0\<rparr>) (\<lambda>z. z) True (\<lambda>i k. True) ex_data =
     Net_forward (ex_net\<lparr>dropout := 0\<rparr>) (\<lambda>z. z) False (\<lambda>i k. True) ex_data"
proof -
  have id: "\<forall>a. F_dropout a (dropout (ex_net\<lparr>dropout := 0\<rparr>)) True (\<lambda>i k. True)
              = F_dropout a (dropout (ex_net\<lparr>dropout := 0\<rparr>)) False (\<lambda>i k. True)"
    by (simp add: F_dropout_def map_nth)
  have p: "(0::real) \<le> 1 / 2 \<and> (1::real) / 2 \<le> 1" by simp
  show ?thesis
    using eval_mode_deterministic [of ex_net "\<lambda>z. z" "\<lambda>i k. i = k" ex_data "\<lambda>i k. True" "1 / 2" ex_x True True]
      eval_mode_deterministic [of "ex_net\<lparr>dropout := 0\<rparr>" "\<lambda>z. z" "\<lambda>i k. True" ex_data "\<lambda>i k. True" 0 ex_x True False]
      id p
    by blast
qed

lemma masked_pairs:
  "length pred = length msk \<Longrightarrow> length y = length msk \<Longrightarrow>
   length (filter (\<lambda>pt. fst pt = snd pt)
            (zip (map fst (filter snd (zip pred msk))) (map fst (filter snd (zip y msk))))) =
   length (filter (\<lambda>i. msk ! i \<and> pred ! i = y ! i) [0..<length msk])"
proof (induction msk arbitrary: pred y)
  case Nil
  then show ?case by simp
next
  case (Cons b msk)
  then obtain p ps t ts where s: "pred = p # ps" "y = t # ts"
    by (cases pred; cases y) auto
  with Cons.prems have l: "length ps = length msk" "length ts = length msk" by simp_all
  have shift: "filter (\<lambda>i. (b # msk) ! i \<and> (p # ps) ! i = (t # ts) ! i) [0..<length (b # msk)]
        = (if b \<and> p = t then [0] else []) @
          map Suc (filter (\<lambda>i. msk ! i \<and> ps ! i = ts ! i) [0..<length msk])"
    by (simp add: upt_conv_Cons filter_map comp_def flip: map_Suc_upt del: upt_Suc)
  show ?case
    unfolding s shift using Cons.IH [OF l] by simp
qed

lemma count_true: "length (filter id msk) = length (filter (\<lambda>i. msk ! i) [0..<length msk])"
proof (induction msk)
  case Nil
  then show ?case by simp
next
  case (Cons b msk)
  have "filter (\<lambda>i. (b # msk) ! i) [0..<length (b # msk)]
        = (if b then [0] else []) @ map Suc (filter (\<lambda>i. msk ! i) [0..<length msk])"
    by (simp add: upt_conv_Cons filter_map comp_def flip: map_Suc_upt del: upt_Suc)
  with Cons show ?case by simp
qed

lemma length_filter_upt_card:
  "length (filter P [0..<n]) = card {i. i < n \<and> P i}"
proof -
  have "card {i. i < n \<and> P i} = card (set (filter P [0..<n]))"
    by (rule arg_cong [where f = card]) auto
  also have "\<dots> = length (filter P [0..<n])"
    by (rule distinct_card) simp
  finally show ?thesis by simp
qed

lemma accuracy_ratio:
  assumes "length pred = length msk" "length y = length msk" "True \<in> set msk"
  shows "accuracy pred y msk =
           Inr (real (card {i. i < length msk \<and> msk ! i \<and> pred ! i = y ! i}) /
                real (card {i. i < length msk \<and> msk ! i}))"
proof -
  have "filter id msk \<noteq> []" using assms(3) by (auto simp: filter_empty_conv)
  then have nz: "length (filter id msk) \<noteq> 0" by simp
  show ?thesis
    using nz assms(1,2)
    by (simp add: accuracy_def masked_def Let_def masked_pairs
          count_true [of msk] length_filter_upt_card)
qed

lemmas forward_unfold =
  GraphConvolution_forward_def linear_forward_def linear_row_def dot_def add_self_loops_def
  normalization_def degree_def pow_neg_half_def getitem_def propagate_def index_select_def
  message_def width_def vadd_def update_def Let_def

lemma traverse_length: "traverse f xs = Inr ys \<Longrightarrow> length ys = length xs"
  by (induction xs arbitrary: ys) (auto split: sum.splits)

section \<open>The order of the linear map\<close>


lemma dot_nth:
  "length u = F \<Longrightarrow> length w = F \<Longrightarrow> dot u w = (\<Sum>m\<leftarrow>[0..<F]. u ! m * w ! m)"
proof -
  assume l: "length u = F" "length w = F"
  have "map2 (*) u w = map (\<lambda>m. u ! m * w ! m) [0..<F]"
    using l by (intro nth_equalityI) simp_all
  then show ?thesis by (simp add: dot_def)
qed






section \<open>Malformed inputs\<close>

lemma scatter_add_error_index:
  "length idx = length src \<Longrightarrow> scatter_add f out idx src = Inl e \<Longrightarrow> e = IndexOutOfRange"
  by (induction f out idx src rule: scatter_add.induct) (auto split: if_splits)

lemma getitem_error: "getitem t i = Inl e \<Longrightarrow> e = IndexOutOfRange"
  by (simp add: getitem_def split: if_splits)

lemma pow_neg_half_error: "pow_neg_half a = Inl e \<Longrightarrow> e = NonFinite"
  by (simp add: pow_neg_half_def split: if_splits)

lemma normalization_error:
  assumes "normalization (add_self_loops es n) n = Inl e"
  shows "e = IndexOutOfRange"
proof -
  let ?aug = "add_self_loops es n"
  have nf: "e \<noteq> NonFinite" using assms normalization_finite by metis
  show ?thesis
  proof (cases "degree (map fst ?aug) n")
    case (Inl e')
    then have "e' = IndexOutOfRange"
      unfolding degree_def by (auto dest: scatter_add_error_index [rotated])
    with Inl assms show ?thesis by (simp add: normalization_def)
  next
    case (Inr deg)
    show ?thesis
    proof (cases "traverse pow_neg_half deg")
      case (Inl e')
      then have "e' = NonFinite" by (auto dest!: traverse_Inl pow_neg_half_error)
      with Inl Inr assms nf show ?thesis by (simp add: normalization_def)
    next
      case p: (Inr dis)
      show ?thesis
      proof (cases "traverse (getitem dis) (map fst ?aug)")
        case (Inl e')
        then have "e' = IndexOutOfRange" by (auto dest!: traverse_Inl getitem_error)
        with Inl Inr p assms show ?thesis by (simp add: normalization_def)
      next
        case a: (Inr a)
        show ?thesis
        proof (cases "traverse (getitem dis) (map snd ?aug)")
          case (Inl e')
          then have "e' = IndexOutOfRange" by (auto dest!: traverse_Inl getitem_error)
          with Inl Inr p a assms show ?thesis by (simp add: normalization_def)
        next
          case b: (Inr b)
          with Inr p a assms show ?thesis by (simp add: normalization_def)
        qed
      qed
    qed
  qed
qed

lemma normalization_Inr_length:
  "normalization es n = Inr nrm \<Longrightarrow> length nrm = length es"
  unfolding normalization_def Let_def
  by (auto split: sum.splits dest!: traverse_length)

lemma normalization_Inr_rows:
  "normalization es n = Inr nrm \<Longrightarrow> list_all (in_range n) (map fst es)"
  unfolding normalization_def Let_def
  by (auto split: sum.splits dest!: degree_Inr_rows)

lemma propagate_bad_cols:
  assumes bad: "\<not> list_all (in_range n) (map snd es)"
    and len: "length nrm = length es"
  shows "propagate es n x nrm = Inl IndexOutOfRange"
proof (cases "traverse (index_select x) (map fst es)")
  case (Inl e)
  then have "e = IndexOutOfRange" by (auto dest!: traverse_Inl index_select_error)
  with Inl show ?thesis by (simp add: propagate_def)
next
  case (Inr x_j)
  have lx: "length x_j = length es" using traverse_length [OF Inr] by simp
  have lm: "length (map snd es) = length (message x_j nrm)"
    using lx len by (simp add: message_def)
  have "scatter_add vadd (replicate n (replicate (width (message x_j nrm)) 0))
          (map snd es) (message x_j nrm) = Inl IndexOutOfRange"
    by (rule scatter_add_bad) (use bad lm in simp_all)
  with Inr show ?thesis by (simp add: propagate_def)
qed

lemma add_self_loops_valid_iff:
  "valid_edges n (add_self_loops es n) \<longleftrightarrow> valid_edges n es"
  by (auto simp: valid_edges_def add_self_loops_def list_all_iff in_range_def)

lemma forward_bad_shape:
  "\<not> list_all (\<lambda>r. length r = in_features (lin gc)) x \<Longrightarrow>
   GraphConvolution_forward gc x es = Inl ShapeMismatch"
  by (simp add: GraphConvolution_forward_def linear_forward_def)

lemma forward_bad_index:
  assumes wx: "list_all (\<lambda>r. length r = in_features (lin gc)) x"
    and bad: "\<not> valid_edges (length x) es"
  shows "GraphConvolution_forward gc x es = Inl IndexOutOfRange"
proof -
  let ?n = "length x"
  let ?aug = "add_self_loops es ?n"
  let ?x' = "map (linear_row (lin gc)) x"
  have l: "linear_forward (lin gc) x = Inr ?x'" by (rule linear_forward_ok [OF wx])
  have nv: "\<not> valid_edges ?n ?aug" using bad by (simp add: add_self_loops_valid_iff)
  show ?thesis
  proof (cases "normalization ?aug ?n")
    case (Inl e)
    then have "e = IndexOutOfRange" by (rule normalization_error)
    with Inl l show ?thesis by (simp add: GraphConvolution_forward_def)
  next
    case (Inr nrm)
    have rows: "list_all (in_range ?n) (map fst ?aug)" by (rule normalization_Inr_rows [OF Inr])
    have cols: "\<not> list_all (in_range ?n) (map snd ?aug)"
      using nv rows by (auto simp: valid_edges_def list_all_iff)
    have "propagate ?aug ?n ?x' nrm = Inl IndexOutOfRange"
      by (rule propagate_bad_cols [OF cols normalization_Inr_length [OF Inr]])
    with Inr l show ?thesis by (simp add: GraphConvolution_forward_def)
  qed
qed

text \<open>
  C9. The forward pass returns an error, not a matrix, when a row of the feature matrix
  has not the declared number of input channels, and when the shape is right but some edge
  index lies outside \<open>[0, N)\<close>; the network's forward pass hands an error of its first
  layer on to its caller unchanged.
\<close>
theorem forward_fails_on_bad_input:
  "(\<not> list_all (\<lambda>r. length r = in_features (lin gc)) x \<longrightarrow>
      GraphConvolution_forward gc x es = Inl ShapeMismatch) \<and>
   (list_all (\<lambda>r. length r = in_features (lin gc)) x \<and> \<not> valid_edges (length x) es \<longrightarrow>
      GraphConvolution_forward gc x es = Inl IndexOutOfRange) \<and>
   (GraphConvolution_forward (conv1 m) (data_x d) (data_edge_index d) = Inl e \<longrightarrow>
      Net_forward m lsm training keep d = Inl e)"
  using forward_bad_shape [of gc x es] forward_bad_index [of gc x es]
  by (simp add: Net_forward_def)

theorem forward_fails_on_bad_input_witness:
  "GraphConvolution_forward ex_conv ex_wide_x ex_edges = Inl ShapeMismatch \<and>
   GraphConvolution_forward ex_conv ex_x ex_bad_edges = Inl IndexOutOfRange \<and>
   GraphConvolution_forward ex_conv ex_x ex_neg_edges = Inl IndexOutOfRange \<and>
   Net_forward (ex_net\<lparr>conv1 := ex_conv\<rparr>) (\<lambda>z. z) False (\<lambda>i k. True)
     (ex_data\<lparr>data_edge_index := ex_bad_edges\<rparr>) = Inl IndexOutOfRange"
proof -
  have a: "\<not> list_all (\<lambda>r. length r = in_features (lin ex_conv)) ex_wide_x"
    by (simp add: ex_conv_def ex_wide_x_def)
  have b: "list_all (\<lambda>r. length r = in_features (lin ex_conv)) ex_x"
    by (simp add: ex_conv_def ex_x_def)
  have c: "\<not> valid_edges (length ex_x) ex_bad_edges"
    by (simp add: valid_edges_def in_range_def ex_x_def ex_bad_edges_def)
  have c': "\<not> valid_edges (length ex_x) ex_neg_edges"
    by (simp add: valid_edges_def in_range_def ex_x_def ex_neg_edges_def)
  have d: "conv1 (ex_net\<lparr>conv1 := ex_conv\<rparr>) = ex_conv"
    "data_x (ex_data\<lparr>data_edge_index := ex_bad_edges\<rparr>) = ex_x"
    "data_edge_index (ex_data\<lparr>data_edge_index := ex_bad_edges\<rparr>) = ex_bad_edges"
    by (simp_all add: ex_data_def)
  have 1: "GraphConvolution_forward ex_conv ex_wide_x ex_edges = Inl ShapeMismatch"
    using forward_fails_on_bad_input [of ex_conv ex_wide_x ex_edges] a by blast
  have 2: "GraphConvolution_forward ex_conv ex_x ex_bad_edges = Inl IndexOutOfRange"
    using forward_fails_on_bad_input [of ex_conv ex_x ex_bad_edges] b c by blast
  have 3: "GraphConvolution_forward ex_conv ex_x ex_neg_edges = Inl IndexOutOfRange"
    using forward_fails_on_bad_input [of ex_conv ex_x ex_neg_edges] b c' by blast
  have 4: "Net_forward (ex_net\<lparr>conv1 := ex_conv\<rparr>) (\<lambda>z. z) False (\<lambda>i k. True)
             (ex_data\<lparr>data_edge_index := ex_bad_edges\<rparr>) = Inl IndexOutOfRange"
    using forward_fails_on_bad_input [of ex_conv ex_x ex_bad_edges "ex_net\<lparr>conv1 := ex_conv\<rparr>"
        "ex_data\<lparr>data_edge_index := ex_bad_edges\<rparr>" IndexOutOfRange "\<lambda>z. z" False "\<lambda>i k. True"]
      2 d by simp
  from 1 2 3 4 show ?thesis by blast
qed

section \<open>The reported accuracy\<close>

lemma argmax_from_first_max:
  assumes "bi < length ps" "best = ps ! bi"
    and "\<forall>k<length ps. ps ! k \<le> best" and "\<forall>k<bi. ps ! k < best"
  shows "argmax_from best bi (length ps) vs < length (ps @ vs) \<and>
         (\<forall>k<length (ps @ vs). (ps @ vs) ! k \<le> (ps @ vs) ! argmax_from best bi (length ps) vs) \<and>
         (\<forall>k<argmax_from best bi (length ps) vs.
             (ps @ vs) ! k < (ps @ vs) ! argmax_from best bi (length ps) vs)"
  using assms
proof (induction vs arbitrary: ps best bi)
  case Nil
  then show ?case by simp
next
  case (Cons v vs)
  let ?ps = "ps @ [v]"
  have app: "ps @ v # vs = ?ps @ vs" by simp
  have len: "Suc (length ps) = length ?ps" by simp
  show ?case
  proof (cases "best < v")
    case True
    have a: "length ps < length ?ps" by simp
    have b: "v = ?ps ! length ps" by simp
    have c: "\<forall>k<length ?ps. ?ps ! k \<le> v"
      using Cons.prems(3) True by (auto simp: nth_append less_Suc_eq)
    have d: "\<forall>k<length ps. ?ps ! k < v"
      using Cons.prems(3) True by (auto simp: nth_append)
    have step: "argmax_from best bi (length ps) (v # vs) = argmax_from v (length ps) (length ?ps) vs"
      using True by simp
    show ?thesis
      unfolding step app by (rule Cons.IH [OF a b c d])
  next
    case False
    have a: "bi < length ?ps" using Cons.prems(1) by simp
    have b: "best = ?ps ! bi" using Cons.prems(1,2) by (simp add: nth_append)
    have c: "\<forall>k<length ?ps. ?ps ! k \<le> best"
      using Cons.prems(3) False by (auto simp: nth_append less_Suc_eq)
    have d: "\<forall>k<bi. ?ps ! k < best"
      using Cons.prems(1,4) by (auto simp: nth_append)
    have step: "argmax_from best bi (length ps) (v # vs) = argmax_from best bi (length ?ps) vs"
      using False by simp
    show ?thesis
      unfolding step app by (rule Cons.IH [OF a b c d])
  qed
qed

lemma argmax_row_first_max:
  assumes "r \<noteq> []"
  shows "\<exists>p. argmax_row r = Inr (int p) \<and> p < length r \<and>
             (\<forall>k<length r. r ! k \<le> r ! p) \<and> (\<forall>k<p. r ! k < r ! p)"
proof -
  obtain v vs where r: "r = v # vs" using assms by (cases r) auto
  have "argmax_from v 0 (length [v]) vs < length ([v] @ vs) \<and>
        (\<forall>k<length ([v] @ vs). ([v] @ vs) ! k \<le> ([v] @ vs) ! argmax_from v 0 (length [v]) vs) \<and>
        (\<forall>k<argmax_from v 0 (length [v]) vs.
            ([v] @ vs) ! k < ([v] @ vs) ! argmax_from v 0 (length [v]) vs)"
    by (rule argmax_from_first_max) simp_all
  then show ?thesis
    unfolding r by (intro exI [of _ "argmax_from v 0 1 vs"]) (simp add: argmax_row_def)
qed

lemma max_dim1_first_max:
  assumes "list_all (\<lambda>r. r \<noteq> []) t"
  shows "\<exists>pred. max_dim1 t = Inr pred \<and> length pred = length t \<and>
           (\<forall>i<length t. 0 \<le> pred ! i \<and> nat (pred ! i) < length (t ! i) \<and>
              (\<forall>k<length (t ! i). t ! i ! k \<le> t ! i ! nat (pred ! i)) \<and>
              (\<forall>k<nat (pred ! i). t ! i ! k < t ! i ! nat (pred ! i)))"
  using assms
proof (induction t)
  case Nil
  then show ?case by (simp add: max_dim1_def)
next
  case (Cons r t)
  then obtain pred where p: "max_dim1 t = Inr pred" "length pred = length t"
    "\<forall>i<length t. 0 \<le> pred ! i \<and> nat (pred ! i) < length (t ! i) \<and>
              (\<forall>k<length (t ! i). t ! i ! k \<le> t ! i ! nat (pred ! i)) \<and>
              (\<forall>k<nat (pred ! i). t ! i ! k < t ! i ! nat (pred ! i))"
    by auto
  from Cons.prems have "r \<noteq> []" by simp
  then obtain q where q: "argmax_row r = Inr (int q)" "q < length r"
    "\<forall>k<length r. r ! k \<le> r ! q" "\<forall>k<q. r ! k < r ! q"
    using argmax_row_first_max by blast
  have m: "max_dim1 (r # t) = Inr (int q # pred)"
    using p(1) q(1) by (simp add: max_dim1_def)
  have "\<forall>i<length (r # t). 0 \<le> (int q # pred) ! i \<and> nat ((int q # pred) ! i) < length ((r # t) ! i) \<and>
              (\<forall>k<length ((r # t) ! i). (r # t) ! i ! k \<le> (r # t) ! i ! nat ((int q # pred) ! i)) \<and>
              (\<forall>k<nat ((int q # pred) ! i). (r # t) ! i ! k < (r # t) ! i ! nat ((int q # pred) ! i))"
  proof (intro allI impI)
    fix i assume "i < length (r # t)"
    then show "0 \<le> (int q # pred) ! i \<and> nat ((int q # pred) ! i) < length ((r # t) ! i) \<and>
              (\<forall>k<length ((r # t) ! i). (r # t) ! i ! k \<le> (r # t) ! i ! nat ((int q # pred) ! i)) \<and>
              (\<forall>k<nat ((int q # pred) ! i). (r # t) ! i ! k < (r # t) ! i ! nat ((int q # pred) ! i))"
      using q(2,3,4) p(3) by (cases i) simp_all
  qed
  with m p(2) show ?case by (intro exI [of _ "int q # pred"]) simp
qed

lemma ex_fan_forward:
  "Net_forward ex_swap_net (\<lambda>z. z) False keep ex_fan_data = Inr [[0, 1 / 16], [1, 5 / 4], [2, 5 / 8]]"
  "Net_forward ex_swap_net (\<lambda>z. z) False keep ex_fan_data_all = Inr [[0, 1 / 16], [1, 5 / 4], [2, 5 / 8]]"
  by (simp_all add: Net_forward_def ex_swap_net_def ex_fan_data_def ex_fan_data_all_def ex_fan_x_def
        ex_fan_edges_def F_relu_def F_dropout_def forward_unfold)

lemma ex_fan_pred: "max_dim1 [[0, 1 / 16], [1, 5 / 4], [2, 5 / 8]] = Inr [1, 1, 0]"
  by (simp add: max_dim1_def argmax_row_def)

lemma ex_fan_accuracy: "evaluate ex_swap_net (\<lambda>z. z) ex_fan_data = Inr (1 / 2)"
proof -
  have "evaluate ex_swap_net (\<lambda>z. z) ex_fan_data =
          accuracy [1, 1, 0] (data_y ex_fan_data) (data_test_mask ex_fan_data)"
    by (simp add: evaluate_def ex_fan_forward ex_fan_pred)
  also have "\<dots> = Inr (1 / 2)"
    by (simp add: accuracy_def masked_def ex_fan_data_def)
  finally show ?thesis .
qed

text \<open>
  C8. When the forward pass in evaluation mode returns rows with at least one entry and
  the test mask selects at least one node, the prediction of every node is the position
  of the first greatest entry of its row, and the evaluation cell reports the number of
  selected nodes whose prediction equals the label, divided by the number of selected
  nodes; with an all-true mask and predictions equal to the labels it reports exactly 1.
\<close>
theorem reported_accuracy:
  assumes out: "Net_forward m lsm False keep d = Inr out"
    and rows: "list_all (\<lambda>r. r \<noteq> []) out"
    and ly: "length (data_y d) = length out"
    and lm: "length (data_test_mask d) = length out"
    and ne: "True \<in> set (data_test_mask d)"
  shows "\<exists>pred. max_dim1 out = Inr pred \<and> length pred = length out \<and>
           (\<forall>i<length out. 0 \<le> pred ! i \<and> nat (pred ! i) < length (out ! i) \<and>
              (\<forall>k<length (out ! i). out ! i ! k \<le> out ! i ! nat (pred ! i)) \<and>
              (\<forall>k<nat (pred ! i). out ! i ! k < out ! i ! nat (pred ! i))) \<and>
           evaluate m lsm d =
             Inr (real (card {i. i < length out \<and> data_test_mask d ! i \<and> pred ! i = data_y d ! i}) /
                  real (card {i. i < length out \<and> data_test_mask d ! i})) \<and>
           (pred = data_y d \<and> data_test_mask d = replicate (length out) True \<longrightarrow>
              evaluate m lsm d = Inr 1)"
proof -
  obtain pred where pred: "max_dim1 out = Inr pred" and lp0: "length pred = length out"
    and am: "\<forall>i<length out. 0 \<le> pred ! i \<and> nat (pred ! i) < length (out ! i) \<and>
              (\<forall>k<length (out ! i). out ! i ! k \<le> out ! i ! nat (pred ! i)) \<and>
              (\<forall>k<nat (pred ! i). out ! i ! k < out ! i ! nat (pred ! i))"
    using max_dim1_first_max [OF rows] by blast
  have o: "Net_forward m lsm False (\<lambda>i k. True) d = Inr out"
    using out Net_forward_eval_keep [of m lsm keep d] by simp
  have lp: "length pred = length (data_test_mask d)" using lp0 lm by simp
  have ly': "length (data_y d) = length (data_test_mask d)" using ly lm by simp
  have ev: "evaluate m lsm d = accuracy pred (data_y d) (data_test_mask d)"
    by (simp add: evaluate_def o pred)
  have r: "evaluate m lsm d =
           Inr (real (card {i. i < length out \<and> data_test_mask d ! i \<and> pred ! i = data_y d ! i}) /
                real (card {i. i < length out \<and> data_test_mask d ! i}))"
    unfolding ev accuracy_ratio [OF lp ly' ne] lm ..
  have one: "evaluate m lsm d = Inr 1"
    if h: "pred = data_y d \<and> data_test_mask d = replicate (length out) True"
  proof -
    have pos: "0 < length out" using ne h by (cases "length out") auto
    have "{i. i < length out \<and> data_test_mask d ! i \<and> pred ! i = data_y d ! i} = {i. i < length out}"
      using h by auto
    moreover have "{i. i < length out \<and> data_test_mask d ! i} = {i. i < length out}"
      using h by auto
    ultimately show ?thesis using r pos by simp
  qed
  from pred lp0 am r one show ?thesis by blast
qed

theorem reported_accuracy_witness:
  "max_dim1 [[0, 1 / 16], [1, 5 / 4], [2, 5 / 8]] = Inr [1, 1, 0] \<and>
   evaluate ex_swap_net (\<lambda>z. z) ex_fan_data = Inr (1 / 2) \<and>
   (Inr (1 / 2) :: error + real) =
     Inr (real (card {i. i < length [[0, 1 / 16], [1, 5 / 4], [2, 5 / 8 :: real]] \<and>
                       data_test_mask ex_fan_data ! i \<and>
                       [1, 1, 0] ! i = data_y ex_fan_data ! i}) /
          real (card {i. i < length [[0, 1 / 16], [1, 5 / 4], [2, 5 / 8 :: real]] \<and>
                       data_test_mask ex_fan_data ! i})) \<and>
   evaluate ex_swap_net (\<lambda>z. z) ex_fan_data_all = Inr 1"
proof -
  let ?out = "[[0, 1 / 16], [1, 5 / 4], [2, 5 / 8]] :: matrix"
  have rows: "list_all (\<lambda>r. r \<noteq> []) ?out" by simp
  have ly: "length (data_y ex_fan_data) = length ?out"
    and lm: "length (data_test_mask ex_fan_data) = length ?out"
    and ne: "True \<in> set (data_test_mask ex_fan_data)"
    by (simp_all add: ex_fan_data_def)
  have ly2: "length (data_y ex_fan_data_all) = length ?out"
    and lm2: "length (data_test_mask ex_fan_data_all) = length ?out"
    and ne2: "True \<in> set (data_test_mask ex_fan_data_all)"
    by (simp_all add: ex_fan_data_all_def)
  have h: "[1, 1, 0] = data_y ex_fan_data_all \<and>
           data_test_mask ex_fan_data_all = replicate (length ?out) True"
    by (simp add: ex_fan_data_all_def numeral_3_eq_3)
  obtain pred where p: "max_dim1 ?out = Inr pred"
    and e: "evaluate ex_swap_net (\<lambda>z. z) ex_fan_data =
              Inr (real (card {i. i < length ?out \<and> data_test_mask ex_fan_data ! i \<and>
                                pred ! i = data_y ex_fan_data ! i}) /
                   real (card {i. i < length ?out \<and> data_test_mask ex_fan_data ! i}))"
    using reported_accuracy [OF ex_fan_forward(1) rows ly lm ne] by blast
  have pe: "pred = [1, 1, 0]" using p ex_fan_pred by simp
  have a: "(Inr (1 / 2) :: error + real) =
     Inr (real (card {i. i < length ?out \<and> data_test_mask ex_fan_data ! i \<and>
                       [1, 1, 0] ! i = data_y ex_fan_data ! i}) /
          real (card {i. i < length ?out \<and> data_test_mask ex_fan_data ! i}))"
    using e unfolding ex_fan_accuracy pe .
  obtain pred2 where p2: "max_dim1 ?out = Inr pred2"
    and one: "pred2 = data_y ex_fan_data_all \<and>
              data_test_mask ex_fan_data_all = replicate (length ?out) True \<longrightarrow>
              evaluate ex_swap_net (\<lambda>z. z) ex_fan_data_all = Inr 1"
    using reported_accuracy [OF ex_fan_forward(2) rows ly2 lm2 ne2] by blast
  have pe2: "pred2 = [1, 1, 0]" using p2 ex_fan_pred by simp
  have b: "evaluate ex_swap_net (\<lambda>z. z) ex_fan_data_all = Inr 1"
    using one h unfolding pe2 by blast
  from a b ex_fan_pred ex_fan_accuracy show ?thesis by blast
qed

section \<open>The normalised sum of the forward pass\<close>

lemma linear_row_nth:
  assumes "wf_linear L" "length r = in_features L" "k < out_features L"
  shows "linear_row L r ! k =
           (\<Sum>m\<leftarrow>[0..<in_features L]. r ! m * weight L ! k ! m) +
           (case bias L of None \<Rightarrow> 0 | Some b \<Rightarrow> b ! k)"
proof -
  have lw: "length (weight L) = out_features L"
    and ww: "length (weight L ! k) = in_features L"
    using assms(1,3) by (auto simp: wf_linear_def list_all_length)
  have d: "dot r (weight L ! k) = (\<Sum>m\<leftarrow>[0..<in_features L]. r ! m * weight L ! k ! m)"
    by (rule dot_nth [OF assms(2) ww])
  show ?thesis
  proof (cases "bias L")
    case None
    then show ?thesis using d lw assms(3) by (simp add: linear_row_def)
  next
    case (Some b)
    then have "length b = out_features L" using assms(1) by (simp add: wf_linear_def)
    then show ?thesis using Some d lw assms(3) by (simp add: linear_row_def)
  qed
qed

lemma source_degree_self_loops:
  "source_degree (add_self_loops es n) n = map (\<lambda>i. real (count_source es (int i)) + 1) [0..<n]"
  unfolding source_degree_def
  by (rule map_cong [OF refl]) (simp add: count_source_self_loops)

lemma degree_symmetric:
  assumes "mset (map prod.swap es) = mset es"
  shows "source_degree (add_self_loops es n) n = in_degree (add_self_loops es n) n"
  unfolding source_degree_def in_degree_def
  by (rule map_cong [OF refl])
     (simp add: count_source_self_loops count_target_self_loops count_symmetric [OF assms])

text \<open>
  C1 as stated, with the degree of a node read as the number of edges entering it, fails
  on a directed edge list. On two nodes with the edge \<open>0 \<rightarrow> 1\<close> given three times, unit
  weight, no bias and features 1, the forward pass returns \<open>1/4\<close> and \<open>5/2\<close>; the sum
  with the coefficients of the entering-edge counts \<open>[1, 4]\<close> is 1 and \<open>7/4\<close>.
\<close>
theorem in_degree_sum_counterexample:
  "linear_forward (lin ex_id_conv) ex_ones_x = Inr ex_ones_x \<and>
   GraphConvolution_forward ex_id_conv ex_ones_x ex_multi_edges = Inr [[1 / 4], [5 / 2]] \<and>
   normalized_sum (in_degree (add_self_loops ex_multi_edges 2) 2) ex_ones_x
     (add_self_loops ex_multi_edges 2) 1 0 = [1] \<and>
   normalized_sum (in_degree (add_self_loops ex_multi_edges 2) 2) ex_ones_x
     (add_self_loops ex_multi_edges 2) 1 1 = [7 / 4]"
proof -
  have aug: "add_self_loops ex_multi_edges 2 = [(0, 1), (0, 1), (0, 1), (0, 0), (1, 1)]"
    by (simp add: add_self_loops_def ex_multi_edges_def numeral_2_eq_2)
  have deg: "in_degree [(0, 1), (0, 1), (0, 1), (0, 0), (1, 1)] 2 = [1, 4]"
    by (simp add: in_degree_def count_target_def numeral_2_eq_2)
  have n0: "normalized_sum [1, 4] ex_ones_x [(0, 1), (0, 1), (0, 1), (0, 0), (1, 1)] 1 0 = [1]"
    by (simp add: normalized_sum_def incoming_def coefficient_def ex_ones_x_def)
  have n1: "normalized_sum [1, 4] ex_ones_x [(0, 1), (0, 1), (0, 1), (0, 0), (1, 1)] 1 1 = [7 / 4]"
    by (simp add: normalized_sum_def incoming_def coefficient_def ex_ones_x_def)
  have l: "linear_forward (lin ex_id_conv) ex_ones_x = Inr ex_ones_x"
    by (simp add: linear_forward_def linear_row_def dot_def ex_id_conv_def ex_ones_x_def)
  have f: "GraphConvolution_forward ex_id_conv ex_ones_x ex_multi_edges = Inr [[1 / 4], [5 / 2]]"
    by (simp add: forward_unfold ex_id_conv_def ex_ones_x_def ex_multi_edges_def)
  show ?thesis unfolding aug deg using l f n0 n1 by simp
qed

text \<open>
  C1 (as amended). On a well-shaped input the forward pass returns, for every node \<open>i\<close>,
  the sum over the edges \<open>(j, i)\<close> of the augmented edge list (every occurrence counted)
  of \<open>coefficient (j, i) * x'[j]\<close>, where \<open>x'\<close> is the feature matrix after the affine map
  of the layer and \<open>coefficient (j, i) = 1 / (sqrt (deg i) * sqrt (deg j))\<close> with \<open>deg n\<close> the
  number of edges of the augmented list that leave \<open>n\<close>. The aggregation is a sum. On a
  symmetric edge list \<open>deg n\<close> is also the number of edges that enter \<open>n\<close>.
\<close>
theorem forward_is_normalized_sum:
  assumes wf: "wf_linear (lin gc)"
    and wx: "list_all (\<lambda>r. length r = in_features (lin gc)) x"
    and v: "valid_edges (length x) es"
  shows "\<exists>x' y.
           linear_forward (lin gc) x = Inr x' \<and>
           (\<forall>j<length x. \<forall>k<out_features (lin gc).
              x' ! j ! k = (\<Sum>m\<leftarrow>[0..<in_features (lin gc)]. x ! j ! m * weight (lin gc) ! k ! m) +
                           (case bias (lin gc) of None \<Rightarrow> 0 | Some b \<Rightarrow> b ! k)) \<and>
           GraphConvolution_forward gc x es = Inr y \<and> length y = length x \<and>
           (\<forall>i<length x. y ! i =
              normalized_sum (source_degree (add_self_loops es (length x)) (length x)) x'
                (add_self_loops es (length x)) (out_features (lin gc)) i) \<and>
           (mset (map prod.swap es) = mset es \<longrightarrow>
              source_degree (add_self_loops es (length x)) (length x) =
              in_degree (add_self_loops es (length x)) (length x))"
proof -
  let ?x' = "map (linear_row (lin gc)) x"
  have l: "linear_forward (lin gc) x = Inr ?x'" by (rule linear_forward_ok [OF wx])
  have e: "\<forall>j<length x. \<forall>k<out_features (lin gc).
              ?x' ! j ! k = (\<Sum>m\<leftarrow>[0..<in_features (lin gc)]. x ! j ! m * weight (lin gc) ! k ! m) +
                           (case bias (lin gc) of None \<Rightarrow> 0 | Some b \<Rightarrow> b ! k)"
    using wx by (simp add: list_all_length linear_row_nth [OF wf])
  obtain y where y: "GraphConvolution_forward gc x es = Inr y" "length y = length x"
    and n: "\<forall>i<length x. y ! i =
              map (\<lambda>k. \<Sum>e\<leftarrow>incoming (add_self_loops es (length x)) i.
                   coefficient (source_degree (add_self_loops es (length x)) (length x)) e
                   * ?x' ! nat (fst e) ! k)
                [0..<out_features (lin gc)]"
    using forward_eq [OF wf wx v source_degree_self_loops refl refl] by blast
  have s: "mset (map prod.swap es) = mset es \<longrightarrow>
              source_degree (add_self_loops es (length x)) (length x) =
              in_degree (add_self_loops es (length x)) (length x)"
    using degree_symmetric by blast
  from l e y n s show ?thesis
    unfolding normalized_sum_def by blast
qed

theorem forward_is_normalized_sum_witness:
  "mset (map prod.swap ex_edges) = mset ex_edges \<and>
   source_degree (add_self_loops ex_edges (length ex_x)) (length ex_x) =
     in_degree (add_self_loops ex_edges (length ex_x)) (length ex_x) \<and>
   (\<exists>x' y.
      linear_forward (lin ex_conv) ex_x = Inr x' \<and>
      GraphConvolution_forward ex_conv ex_x ex_edges = Inr y \<and> length y = length ex_x \<and>
      (\<forall>i<length ex_x. y ! i =
         normalized_sum (source_degree (add_self_loops ex_edges (length ex_x)) (length ex_x)) x'
           (add_self_loops ex_edges (length ex_x)) (out_features (lin ex_conv)) i))"
proof -
  have a: "wf_linear (lin ex_conv)" by (simp add: wf_linear_def ex_conv_def)
  have b: "list_all (\<lambda>r. length r = in_features (lin ex_conv)) ex_x"
    by (simp add: ex_conv_def ex_x_def)
  have c: "valid_edges (length ex_x) ex_edges"
    by (simp add: valid_edges_def in_range_def ex_x_def ex_edges_def)
  have s: "mset (map prod.swap ex_edges) = mset ex_edges"
    by (simp add: ex_edges_def)
  show ?thesis using s forward_is_normalized_sum [OF a b c] by blast
qed

end
